theory Spec2Isabelle
  imports Main "HOL-Library.Word"
begin

unbundle bit_operations_syntax

section \<open>LambdaCraft: the macros of lambda.h\<close>

text \<open>
  \<^verbatim>\<open>lambda.h\<close> defines the macro \<^verbatim>\<open>lambda\<close> and five traversal macros over it.
  \<^verbatim>\<open>
  #define lambda(ret, args, body) ({ret _l args body; _l;})
  \<close>
  is a statement expression that declares a GNU C nested function and yields it, and adds
  nothing to it.

  Every argument of a traversal macro is text. The preprocessor pastes it, without
  parentheses, into the expansion, and it is evaluated there: in the scope of the
  variables the macro declares (\<^verbatim>\<open>acc\<close>, \<^verbatim>\<open>i\<close>, \<^verbatim>\<open>value\<close>, \<^verbatim>\<open>next\<close>), at every
  evaluation of the place it was pasted into. A text that is a function body runs as a
  nested function in that scope and reaches the same variables by reference.

  The embedding takes a pasted text as what it does where it stands: a function from the
  scope (the macro's variables and the caller's state \<open>'s\<close>, everything the text can
  reach) to the value it yields and the scope it leaves. A text that returns is total.
  Texts of the kind the usage notes of \<^verbatim>\<open>lambda.h\<close> show (a constant or a variable as
  size, an array name, a body that reads \<^verbatim>\<open>acc\<close> and \<^verbatim>\<open>value\<close>) are defined below as
  such functions, beside texts that use what the expansion leaves open.
\<close>

subsection \<open>What ends a run besides a return\<close>

text \<open>
  The counter of the array macros is a C \<^verbatim>\<open>int\<close>, and \<^verbatim>\<open>i++\<close> at its largest value is
  undefined. The recursion of \<^verbatim>\<open>map_s\<close> needs room on the stack for every activation. A
  loop that goes on for ever has no result: the loops are partial functions, and \<open>None\<close>
  is the run that never ends.
\<close>

datatype fault = Signed_overflow | Stack_exhausted

definition INT_MAX :: int where
  "INT_MAX = 2147483647"

subsection \<open>Texts that keep to themselves\<close>

text \<open>
  \<open>constant_text a\<close>: an expression of value \<open>a\<close> that names no variable of the macro and
  changes nothing. \<open>self_text\<close>: the name of the variable that is being declared, as in
  \<^verbatim>\<open>acc_type acc = acc\<close>; it yields what that variable holds before it is initialised.
  \<open>not_naming_acc t\<close>: a text \<open>t\<close> over the rest of the scope, in a scope that has
  \<^verbatim>\<open>acc\<close> as well.
\<close>

definition constant_text :: "'x \<Rightarrow> 'sc \<Rightarrow> 'x \<times> 'sc" where
  "constant_text a sc = (a, sc)"

definition self_text :: "'x \<times> 's \<Rightarrow> 'x \<times> ('x \<times> 's)" where
  "self_text sc = (fst sc, sc)"

definition not_naming_acc :: "('sc \<Rightarrow> 'x \<times> 'sc) \<Rightarrow> 'a \<times> 'sc \<Rightarrow> 'x \<times> ('a \<times> 'sc)" where
  "not_naming_acc t sc = (case t (snd sc) of (x, sc') \<Rightarrow> (x, (fst sc, sc')))"

subsection \<open>fold: reduce over an array\<close>




subsection \<open>map: transform an array into an array\<close>

text \<open>
  \<^verbatim>\<open>
  #define map(type, in_array, size, body, out_array) ({
    for(int i=0;i<size;i++) {
      out_array[i]=lambda(type,(type value), body)(in_array[i]);
    }; })
  \<close>
  The scope is (\<^verbatim>\<open>i\<close>, caller's state). \<open>out_array_i\<close> is the left operand
  \<^verbatim>\<open>out_array[i]\<close>: it designates the place \<open>'l\<close> that is assigned, and \<open>put\<close> is the store
  into a place. C leaves open whether the place is designated before the right operand
  runs or after it; the compiler decides, and the order is a parameter.
\<close>

datatype operand_order = Destination_first | Transform_first

partial_function (option) map_loop ::
  "operand_order \<Rightarrow> (int \<times> 's \<Rightarrow> bool \<times> int \<times> 's) \<Rightarrow> (int \<times> 's \<Rightarrow> 'e \<times> int \<times> 's) \<Rightarrow>
   (int \<times> 's \<Rightarrow> 'e \<Rightarrow> 'e \<times> int \<times> 's) \<Rightarrow> (int \<times> 's \<Rightarrow> 'l \<times> int \<times> 's) \<Rightarrow> ('l \<Rightarrow> 'e \<Rightarrow> 's \<Rightarrow> 's) \<Rightarrow>
   int \<times> 's \<Rightarrow> (fault + 's) option"
where
  "map_loop order i_lt_size in_array_i body out_array_i put sc =
     (case i_lt_size sc of
        (continue, sc1) \<Rightarrow>
          if continue
          then (case (case order of
                        Destination_first \<Rightarrow>
                          (case out_array_i sc1 of
                             (place, sc2) \<Rightarrow>
                               (case in_array_i sc2 of
                                  (value, sc3) \<Rightarrow>
                                    (case body sc3 value of
                                       (r, sc4) \<Rightarrow> (place, r, sc4))))
                      | Transform_first \<Rightarrow>
                          (case in_array_i sc1 of
                             (value, sc2) \<Rightarrow>
                               (case body sc2 value of
                                  (r, sc3) \<Rightarrow>
                                    (case out_array_i sc3 of
                                       (place, sc4) \<Rightarrow> (place, r, sc4))))) of
                  (place, r, i4, s4) \<Rightarrow>
                    if i4 = INT_MAX then Some (Inl Signed_overflow)
                    else map_loop order i_lt_size in_array_i body out_array_i put
                           (i4 + 1, put place r s4))
          else Some (Inr (snd sc1)))"

declare map_loop.simps [code]

definition map_a ::
  "operand_order \<Rightarrow> (int \<times> 's \<Rightarrow> 'e \<times> int \<times> 's) \<Rightarrow> (int \<times> 's \<Rightarrow> bool \<times> int \<times> 's) \<Rightarrow>
   (int \<times> 's \<Rightarrow> 'e \<Rightarrow> 'e \<times> int \<times> 's) \<Rightarrow> (int \<times> 's \<Rightarrow> 'l \<times> int \<times> 's) \<Rightarrow> ('l \<Rightarrow> 'e \<Rightarrow> 's \<Rightarrow> 's) \<Rightarrow>
   's \<Rightarrow> (fault + 's) option"
where
  "map_a order in_array_i i_lt_size body out_array_i put s =
     map_loop order i_lt_size in_array_i body out_array_i put (0, s)"

subsection \<open>The texts of the array macros\<close>

text \<open>
  \<open>int_size n\<close>: the size is an \<^verbatim>\<open>int\<close> constant, an \<^verbatim>\<open>int\<close> variable that nothing
  changes during the loop, or such an expression in parentheses, of value \<open>n\<close>; then
  \<^verbatim>\<open>i<size\<close> compares the counter with \<open>n\<close>.

  \<open>and_size a b\<close>: the size is the text \<^verbatim>\<open>a & b\<close> for two \<^verbatim>\<open>int\<close> constants; pasted, it
  reads \<^verbatim>\<open>i<a & b\<close>, which C parses as \<^verbatim>\<open>(i<a) & b\<close>. \<open>ternary_size ok n\<close>: the size
  is the text \<^verbatim>\<open>ok ? n : 0\<close>; pasted, it reads \<^verbatim>\<open>i<ok ? n : 0\<close>, which C parses as
  \<^verbatim>\<open>(i<ok) ? n : 0\<close>.

  \<open>array_text arr\<close>: \<^verbatim>\<open>in_array[i]\<close> reads the cell \<open>i\<close> of an array in the caller's
  state. \<open>place_text plc\<close>: \<^verbatim>\<open>out_array[i]\<close> designates the cell \<open>i\<close> of an array there.
  \<open>reducer_text red\<close> and \<open>transform_text tr\<close>: a body that reads \<^verbatim>\<open>acc\<close> and
  \<^verbatim>\<open>value\<close>, may change the caller's state, and assigns neither \<^verbatim>\<open>acc\<close> nor \<^verbatim>\<open>i\<close>.
  \<open>skipping_text red\<close> and \<open>skipping_transform_text tr\<close>: such a body that also does
  \<^verbatim>\<open>i++\<close>.
\<close>

definition int_size :: "32 word \<Rightarrow> int \<times> 's \<Rightarrow> bool \<times> int \<times> 's" where
  "int_size n sc = (fst sc < sint n, sc)"



definition array_text :: "('s \<Rightarrow> int \<Rightarrow> 'e) \<Rightarrow> int \<times> 's \<Rightarrow> 'e \<times> int \<times> 's" where
  "array_text arr sc = (arr (snd sc) (fst sc), sc)"

definition place_text :: "('s \<Rightarrow> int \<Rightarrow> 'l) \<Rightarrow> int \<times> 's \<Rightarrow> 'l \<times> int \<times> 's" where
  "place_text plc sc = (plc (snd sc) (fst sc), sc)"



definition transform_text ::
  "('s \<Rightarrow> 'e \<Rightarrow> 'e \<times> 's) \<Rightarrow> int \<times> 's \<Rightarrow> 'e \<Rightarrow> 'e \<times> int \<times> 's"
where
  "transform_text tr sc value =
     (case sc of (i, s) \<Rightarrow> (case tr s value of (r, s') \<Rightarrow> (r, i, s')))"



definition map_step ::
  "operand_order \<Rightarrow> ('s \<Rightarrow> int \<Rightarrow> 'e) \<Rightarrow> ('s \<Rightarrow> 'e \<Rightarrow> 'e \<times> 's) \<Rightarrow> ('s \<Rightarrow> int \<Rightarrow> 'l) \<Rightarrow>
   ('l \<Rightarrow> 'e \<Rightarrow> 's \<Rightarrow> 's) \<Rightarrow> 's \<Rightarrow> int \<Rightarrow> 's"
where
  "map_step order arr tr plc put s i =
     (case tr s (arr s i) of
        (r, s') \<Rightarrow>
          put (plc (case order of Destination_first \<Rightarrow> s | Transform_first \<Rightarrow> s') i) r s')"




subsection \<open>Arrays in memory\<close>

text \<open>
  A C array argument is a pointer into memory, and two array arguments may name the same
  cells or overlapping ones. Memory is a store from addresses to elements; \<open>p[i]\<close> is the
  cell at address \<open>p + i\<close>.
\<close>

type_synonym addr = nat

type_synonym 'e memory = "addr \<Rightarrow> 'e"

definition rd :: "addr \<Rightarrow> 'e memory \<Rightarrow> int \<Rightarrow> 'e" where
  "rd p m i = m (p + nat i)"

definition cell :: "addr \<Rightarrow> 'e memory \<Rightarrow> int \<Rightarrow> addr" where
  "cell p m i = p + nat i"

definition poke :: "addr \<Rightarrow> 'e \<Rightarrow> 'e memory \<Rightarrow> 'e memory" where
  "poke a v m = m(a := v)"

text \<open>The contents of the \<open>n\<close> cells from \<open>p\<close> on, and a memory holding a list from \<open>p\<close> on.\<close>

definition cells :: "'e memory \<Rightarrow> addr \<Rightarrow> nat \<Rightarrow> 'e list" where
  "cells m p n = map (\<lambda>k. m (p + k)) [0..<n]"

definition store :: "'e memory \<Rightarrow> addr \<Rightarrow> 'e list \<Rightarrow> 'e memory" where
  "store m p xs = (\<lambda>a. if p \<le> a \<and> a < p + length xs then xs ! (a - p) else m a)"

text \<open>
  A transform that only computes: it returns \<open>f value\<close> and leaves the state alone. The
  identity and the squaring of the examples are such transforms; the squares of the
  examples stay far inside the range of \<^verbatim>\<open>int\<close>.
\<close>

definition pure_transform :: "('e \<Rightarrow> 'e) \<Rightarrow> 's \<Rightarrow> 'e \<Rightarrow> 'e \<times> 's" where
  "pure_transform f s v = (f v, s)"

definition identity :: "'s \<Rightarrow> 'e \<Rightarrow> 'e \<times> 's" where
  "identity s v = (v, s)"


subsection \<open>Chains: elements and the Sentinel\<close>

text \<open>
  An element of a chain is a pointer, an address; \<^verbatim>\<open>NULL\<close>, the Sentinel, is the address
  0. The chain macros test \<^verbatim>\<open>value != NULL\<close> before they run a callable.
\<close>

abbreviation NULL :: addr where
  "NULL \<equiv> 0"

subsection \<open>fold_s: reduce over a chain\<close>

text \<open>
  \<^verbatim>\<open>
  #define fold_s(acc_type, element_type, first_e, next, body, init_acc) ({
    acc_type acc = init_acc;
    for(element_type value=first_e; value!=NULL;
        value=lambda(element_type, (), next)())
        acc=lambda(acc_type,(), body)();
    ; acc; })
  \<close>
  The scope of the loop is (\<^verbatim>\<open>acc\<close>, \<^verbatim>\<open>value\<close>, caller's state). In each iteration
  \<^verbatim>\<open>body\<close> runs first and what it returns is assigned to \<^verbatim>\<open>acc\<close>, then \<^verbatim>\<open>next\<close> runs
  and what it returns is assigned to \<^verbatim>\<open>value\<close>. \<open>init_acc\<close> is evaluated as in
  \<^verbatim>\<open>fold\<close>; \<open>first_e\<close> is evaluated when \<^verbatim>\<open>value\<close> is declared and not yet initialised,
  with \<open>junk_value\<close> for it.
\<close>

partial_function (option) fold_s_loop ::
  "('a \<times> addr \<times> 's \<Rightarrow> addr \<times> 'a \<times> addr \<times> 's) \<Rightarrow> ('a \<times> addr \<times> 's \<Rightarrow> 'a \<times> 'a \<times> addr \<times> 's) \<Rightarrow>
   'a \<times> addr \<times> 's \<Rightarrow> ('a \<times> 's) option"
where
  "fold_s_loop next body sc =
     (case sc of
        (acc, value, s) \<Rightarrow>
          if value \<noteq> NULL
          then (case body (acc, value, s) of
                  (r, acc1, value1, s1) \<Rightarrow>
                    (case next (r, value1, s1) of
                       (n, acc2, value2, s2) \<Rightarrow> fold_s_loop next body (acc2, n, s2)))
          else Some (acc, s))"

declare fold_s_loop.simps [code]

definition fold_s ::
  "('a \<times> addr \<times> 's \<Rightarrow> addr \<times> 'a \<times> addr \<times> 's) \<Rightarrow> ('a \<times> addr \<times> 's \<Rightarrow> addr \<times> 'a \<times> addr \<times> 's) \<Rightarrow>
   ('a \<times> addr \<times> 's \<Rightarrow> 'a \<times> 'a \<times> addr \<times> 's) \<Rightarrow> ('a \<times> 's \<Rightarrow> 'a \<times> 'a \<times> 's) \<Rightarrow> 'a \<Rightarrow> addr \<Rightarrow> 's \<Rightarrow>
   ('a \<times> 's) option"
where
  "fold_s first_e next body init_acc junk junk_value s =
     (case init_acc (junk, s) of
        (a, acc0, s0) \<Rightarrow>
          (case first_e (a, junk_value, s0) of
             (v, acc1, value1, s1) \<Rightarrow> fold_s_loop next body (acc1, v, s1)))"

subsection \<open>foreach_s: one callable per element\<close>

text \<open>
  \<^verbatim>\<open>
  #define foreach_s(element_type, first_e, body) ({
    for(element_type value=first_e; value!=NULL;
      value=lambda(element_type, (), body)())
    ; })
  \<close>
  The scope is (\<^verbatim>\<open>value\<close>, caller's state).
\<close>

partial_function (option) foreach_s_loop ::
  "(addr \<times> 's \<Rightarrow> addr \<times> addr \<times> 's) \<Rightarrow> addr \<times> 's \<Rightarrow> 's option"
where
  "foreach_s_loop body sc =
     (case sc of
        (value, s) \<Rightarrow>
          if value \<noteq> NULL
          then (case body (value, s) of
                  (n, value1, s1) \<Rightarrow> foreach_s_loop body (n, s1))
          else Some s)"

declare foreach_s_loop.simps [code]

definition foreach_s ::
  "(addr \<times> 's \<Rightarrow> addr \<times> addr \<times> 's) \<Rightarrow> (addr \<times> 's \<Rightarrow> addr \<times> addr \<times> 's) \<Rightarrow> addr \<Rightarrow> 's \<Rightarrow> 's option"
where
  "foreach_s first_e body junk_value s =
     (case first_e (junk_value, s) of
        (v, value1, s1) \<Rightarrow> foreach_s_loop body (v, s1))"

subsection \<open>map_s: build a new chain\<close>

text \<open>
  \<^verbatim>\<open>
  #define map_s(type, first_e, findnext, body) ({
    type aux(type value) {
      if(!value) return value;
      else {
        type next = lambda(type, (type next), findnext)(value);
        next = aux(next);
        return lambda(type, (), body)();
      }
    } ; aux(first_e) ;})
  \<close>
  \<^verbatim>\<open>findnext\<close> runs in the scope (\<^verbatim>\<open>value\<close>, caller's state); its parameter is a copy
  of \<^verbatim>\<open>value\<close>. The recursive call replaces \<^verbatim>\<open>next\<close> by what \<^verbatim>\<open>aux\<close> returns for the
  rest of the chain; \<^verbatim>\<open>body\<close> then runs in the scope (\<^verbatim>\<open>value\<close>, \<^verbatim>\<open>next\<close>, caller's
  state), and what it returns is the value of \<^verbatim>\<open>aux\<close>. \<^verbatim>\<open>first_e\<close> is evaluated by the
  caller, outside \<^verbatim>\<open>aux\<close>.

  The call of \<^verbatim>\<open>aux\<close> inside \<^verbatim>\<open>aux\<close> is not the last thing \<^verbatim>\<open>aux\<close> does, so every
  element of the chain keeps one activation of \<^verbatim>\<open>aux\<close> on the stack until the Sentinel
  is reached. \<open>room\<close> is the number of activations of \<^verbatim>\<open>aux\<close> the stack has room for; a
  call beyond it ends the program.
\<close>

fun aux ::
  "nat \<Rightarrow> (addr \<times> 's \<Rightarrow> addr \<times> addr \<times> 's) \<Rightarrow> (addr \<times> addr \<times> 's \<Rightarrow> addr \<times> addr \<times> addr \<times> 's) \<Rightarrow>
   addr \<Rightarrow> 's \<Rightarrow> fault + addr \<times> 's"
where
  "aux 0 findnext body value s = Inl Stack_exhausted"
| "aux (Suc room) findnext body value s =
     (if value = NULL then Inr (value, s)
      else (case findnext (value, s) of
              (next, value1, s1) \<Rightarrow>
                (case aux room findnext body next s1 of
                   Inl e \<Rightarrow> Inl e
                 | Inr (next', s2) \<Rightarrow>
                     (case body (value1, next', s2) of
                        (r, value3, next3, s3) \<Rightarrow> Inr (r, s3)))))"


subsection \<open>The texts of the chain macros\<close>

text \<open>
  \<open>successor_text nx\<close>: a callable that reads \<^verbatim>\<open>value\<close>, may change the caller's state,
  and assigns no variable of the macro; it serves as \<^verbatim>\<open>next\<close>, as \<^verbatim>\<open>findnext\<close> and as
  the one callable of \<^verbatim>\<open>foreach_s\<close>. \<open>reducer_s_text red\<close>: such a callable that reads
  \<^verbatim>\<open>acc\<close> as well. \<open>transform_s_text tr\<close>: such a callable that reads \<^verbatim>\<open>value\<close> and
  \<^verbatim>\<open>next\<close>. \<open>advancing_text link red\<close>: a reducer that ends with
  \<^verbatim>\<open>value = value->next\<close> in a list of nodes linked by \<open>link\<close>.
  \<open>reassigning_text link\<close>: the successor callable \<^verbatim>\<open>{ value = value->next; return value; }\<close>
  in such a list.
\<close>

definition successor_text ::
  "('s \<Rightarrow> addr \<Rightarrow> addr \<times> 's) \<Rightarrow> addr \<times> 's \<Rightarrow> addr \<times> addr \<times> 's"
where
  "successor_text nx sc =
     (case sc of (value, s) \<Rightarrow> (case nx s value of (n, s') \<Rightarrow> (n, value, s')))"

definition reducer_s_text ::
  "('s \<Rightarrow> 'a \<Rightarrow> addr \<Rightarrow> 'a \<times> 's) \<Rightarrow> 'a \<times> addr \<times> 's \<Rightarrow> 'a \<times> 'a \<times> addr \<times> 's"
where
  "reducer_s_text red sc =
     (case sc of
        (acc, value, s) \<Rightarrow> (case red s acc value of (r, s') \<Rightarrow> (r, acc, value, s')))"




subsection \<open>What a traversal of a chain does, element by element\<close>

text \<open>
  \<open>chain succ_of value ps\<close>: following the successor function \<open>succ_of\<close> from \<open>value\<close>
  passes the elements \<open>ps\<close>, in this order, and then reaches the Sentinel. Such a chain
  is finite, and it is acyclic: no element occurs twice in \<open>ps\<close>.
\<close>

fun chain :: "(addr \<Rightarrow> addr) \<Rightarrow> addr \<Rightarrow> addr list \<Rightarrow> bool" where
  "chain succ_of value [] = (value = NULL)"
| "chain succ_of value (p # ps) = (value = p \<and> p \<noteq> NULL \<and> chain succ_of (succ_of p) ps)"


text \<open>
  \<open>foreach_s_calls body ps value s\<close>: the callable is invoked on the elements \<open>ps\<close> and
  on nothing else, once each and in this order, starting at \<open>value\<close>; what an invocation
  returns is the element of the next invocation, and the last invocation returns the
  Sentinel. The result is the state after the last invocation, \<open>None\<close> when the
  invocations starting at \<open>value\<close> are not these.
\<close>

fun foreach_s_calls ::
  "(addr \<times> 's \<Rightarrow> addr \<times> addr \<times> 's) \<Rightarrow> addr list \<Rightarrow> addr \<Rightarrow> 's \<Rightarrow> 's option"
where
  "foreach_s_calls body [] value s = (if value = NULL then Some s else None)"
| "foreach_s_calls body (p # ps) value s =
     (if value = p \<and> p \<noteq> NULL
      then (case body (p, s) of (n, value1, s1) \<Rightarrow> foreach_s_calls body ps n s1)
      else None)"





subsection \<open>The linked list of the examples\<close>

text \<open>
  \<^verbatim>\<open>
  typedef struct Node {
      int data;
      struct Node* next;
  } Node;
  \<close>
  The heap holds a node at every address; \<^verbatim>\<open>malloc\<close> hands out the addresses from
  \<open>brk\<close> upwards and always succeeds. \<^verbatim>\<open>free\<close> is recorded in the order of the calls,
  and the node it releases is overwritten, so that its link is gone. \<^verbatim>\<open>printf\<close> of a
  value is recorded in \<open>printed\<close>. The values of the examples stay far inside the range of
  \<^verbatim>\<open>int\<close>.
\<close>

record Node =
  data :: int
  nextp :: addr

record heap =
  nodes :: "addr \<Rightarrow> Node"
  brk :: addr
  freed :: "addr list"
  printed :: "int list"


definition free :: "heap \<Rightarrow> addr \<Rightarrow> heap" where
  "free h p = h\<lparr>nodes := (nodes h)(p := \<lparr>data = 0, nextp = NULL\<rparr>), freed := freed h @ [p]\<rparr>"



text \<open>The link of a node, \<^verbatim>\<open>value->next\<close>.\<close>

definition link :: "heap \<Rightarrow> addr \<Rightarrow> addr" where
  "link h p = nextp (nodes h p)"




text \<open>
  The callable that releases a chain, as the linked-list example passes it to
  \<^verbatim>\<open>foreach_s\<close>: \<^verbatim>\<open>{ linked_s *r=value->next; free(value); return r; }\<close>
\<close>

definition free_node :: "heap \<Rightarrow> addr \<Rightarrow> addr \<times> heap" where
  "free_node h value = (let r = link h value in (r, free h value))"





text \<open>The list \<open>1 -> 2 -> 3 -> NULL\<close> that the examples build, at the addresses 1, 2 and 3.\<close>

definition list_1_2_3 :: heap where
  "list_1_2_3 =
     \<lparr>nodes = (\<lambda>a. \<lparr>data = 0, nextp = NULL\<rparr>)
        (1 := \<lparr>data = 1, nextp = 2\<rparr>,
         2 := \<lparr>data = 2, nextp = 3\<rparr>,
         3 := \<lparr>data = 3, nextp = NULL\<rparr>),
      brk = 4, freed = [], printed = []\<rparr>"





section \<open>Properties\<close>

subsection \<open>fold\<close>

lemma sint_le_INT_MAX: "sint (n :: 32 word) \<le> INT_MAX"
  using sint_lt [of n] by (simp add: INT_MAX_def)











subsection \<open>map\<close>

lemma map_loop_stop:
  "\<not> i < sint n \<Longrightarrow>
     map_loop order (int_size n) in_array_i body out_array_i put (i, s) = Some (Inr s)"
  by (subst map_loop.simps) (simp add: int_size_def)

lemma map_loop_step:
  assumes "i < sint n"
  shows "map_loop order (int_size n) (array_text arr) (transform_text tr) (place_text plc) put
           (i, s) =
         map_loop order (int_size n) (array_text arr) (transform_text tr) (place_text plc) put
           (i + 1, map_step order arr tr plc put s i)"
proof -
  have "i \<noteq> INT_MAX"
    using assms sint_le_INT_MAX [of n] by simp
  then show ?thesis
    using assms
    by (subst map_loop.simps)
      (simp add: int_size_def array_text_def transform_text_def place_text_def map_step_def
        split: operand_order.split prod.split)
qed

lemma map_loop_upto:
  "map_loop order (int_size n) (array_text arr) (transform_text tr) (place_text plc) put (i, s) =
   Some (Inr (foldl (map_step order arr tr plc put) s [i..sint n - 1]))"
proof (induction "nat (sint n - i)" arbitrary: i s)
  case 0
  then have "\<not> i < sint n" by simp
  then show ?case
    by (simp add: map_loop_stop)
next
  case (Suc k)
  then have lt: "i < sint n" and k: "k = nat (sint n - (i + 1))"
    by simp_all
  have u: "[i..sint n - 1] = i # [i + 1..sint n - 1]"
    using lt by (simp add: upto_rec1)
  have "map_loop order (int_size n) (array_text arr) (transform_text tr) (place_text plc) put
          (i, s) =
        map_loop order (int_size n) (array_text arr) (transform_text tr) (place_text plc) put
          (i + 1, map_step order arr tr plc put s i)"
    using lt by (rule map_loop_step)
  also have "\<dots> = Some (Inr (foldl (map_step order arr tr plc put)
                              (map_step order arr tr plc put s i) [i + 1..sint n - 1]))"
    by (rule Suc.hyps(1) [OF k])
  also have "foldl (map_step order arr tr plc put) (map_step order arr tr plc put s i)
               [i + 1..sint n - 1] =
             foldl (map_step order arr tr plc put) s [i..sint n - 1]"
    by (simp add: u)
  finally show ?case .
qed

lemma map_a_upto:
  "map_a order (array_text arr) (int_size n) (transform_text tr) (place_text plc) put s =
   Some (Inr (foldl (map_step order arr tr plc put) s [0..sint n - 1]))"
  by (simp add: map_a_def map_loop_upto)

text \<open>
  One iteration of a computing transform from the cells at \<open>src\<close> to the cells at \<open>dst\<close>:
  the order of the operands makes no difference.
\<close>

lemma map_step_mem:
  "map_step order (rd src) (pure_transform f) (cell dst) poke m i =
     m(dst + nat i := f (m (src + nat i)))"
  by (cases order) (simp_all add: map_step_def pure_transform_def rd_def cell_def poke_def)







lemma identity_pure: "identity = pure_transform (\<lambda>v. v)"
  by (simp add: fun_eq_iff identity_def pure_transform_def)


text \<open>
  Without that condition a write can land on a source cell that is still to be read:
  copying \<open>[1,2,3]\<close> one cell upwards reads the cell it has just written.
\<close>

lemma map_a_overlap_example:
  "map_option (map_sum id (\<lambda>m. cells m 11 3))
     (map_a order (array_text (rd 10)) (int_size 3) (transform_text identity)
        (place_text (cell 11)) poke (store m0 10 [1, 2, 3 :: int])) =
   Some (Inr [1, 1, 1])"
  by (simp add: map_a_upto identity_pure map_step_mem cells_def store_def upto_rec1
      numeral_3_eq_3)








subsection \<open>Chains\<close>

lemma chain_unique: "chain f v ps \<Longrightarrow> chain f v qs \<Longrightarrow> ps = qs"
proof (induction ps arbitrary: v qs)
  case Nil
  then show ?case by (cases qs) simp_all
next
  case (Cons p ps)
  then show ?case by (cases qs) auto
qed

lemma chain_drop: "chain f v (as @ p # bs) \<Longrightarrow> chain f p (p # bs)"
  by (induction as arbitrary: v) auto

lemma chain_distinct: "chain f v ps \<Longrightarrow> distinct ps"
proof (induction ps arbitrary: v)
  case Nil
  show ?case by simp
next
  case (Cons p ps)
  then have rest: "chain f (f p) ps" and d: "distinct ps"
    by auto
  have "p \<notin> set ps"
  proof
    assume "p \<in> set ps"
    then obtain as bs where ps: "ps = as @ p # bs"
      by (auto dest: split_list)
    with rest have "chain f p (p # bs)"
      by (auto dest: chain_drop)
    then have "chain f (f p) bs"
      by simp
    with rest have "ps = bs"
      by (rule chain_unique)
    with ps show False
      by simp
  qed
  with d show ?case by simp
qed


subsection \<open>fold_s\<close>

lemma fold_s_loop_NULL: "fold_s_loop next body (acc, NULL, s) = Some (acc, s)"
  by (subst fold_s_loop.simps) simp





lemma fold_s_constant:
  "fold_s (constant_text v) next body (constant_text a) junk junk_value s =
     fold_s_loop next body (a, v, s)"
  by (simp add: fold_s_def constant_text_def)

subsection \<open>foreach_s\<close>

lemma successor_text_apply:
  "successor_text nx (p, s) = (fst (nx s p), p, snd (nx s p))"
  by (simp add: successor_text_def split_beta)


lemma foreach_s_loop_NULL: "foreach_s_loop body (NULL, s) = Some s"
  by (subst foreach_s_loop.simps) simp

lemma foreach_s_loop_elem:
  "p \<noteq> NULL \<Longrightarrow>
     foreach_s_loop body (p, s) =
       (case body (p, s) of (n, value1, s1) \<Rightarrow> foreach_s_loop body (n, s1))"
  by (subst foreach_s_loop.simps) simp

lemma foreach_s_constant:
  "foreach_s (constant_text v) body junk_value s = foreach_s_loop body (v, s)"
  by (simp add: foreach_s_def constant_text_def)

lemma foreach_s_loop_calls:
  "foreach_s_calls body ps v s = Some s' \<Longrightarrow> foreach_s_loop body (v, s) = Some s'"
proof (induction ps arbitrary: v s)
  case Nil
  then show ?case
    by (simp add: foreach_s_loop_NULL split: if_splits)
next
  case (Cons p ps)
  then show ?case
    by (auto simp add: foreach_s_loop_elem split: if_splits prod.splits)
qed

lemma foreach_s_loop_returns_calls:
  fixes body :: "addr \<times> 's \<Rightarrow> addr \<times> addr \<times> 's"
  assumes ret: "foreach_s_loop body (v, s) = Some s'"
  shows "\<exists>ps. foreach_s_calls body ps v s = Some s'"
proof -
  let ?P = "\<lambda>(bdy :: addr \<times> 's \<Rightarrow> addr \<times> addr \<times> 's) (sc :: addr \<times> 's) s'.
              \<exists>ps. foreach_s_calls bdy ps (fst sc) (snd sc) = Some s'"
  have "?P body (v, s) s'"
  proof (rule foreach_s_loop.raw_induct [where P = ?P, OF _ ret])
    fix loop bdy sc s'
    assume IH: "\<And>bdy sc s'. loop bdy sc = Some s' \<Longrightarrow> ?P bdy sc s'"
      and step: "(case sc of
                    (value, s) \<Rightarrow>
                      if value \<noteq> NULL
                      then (case bdy (value, s) of
                              (n, value1, s1) \<Rightarrow> loop bdy (n, s1))
                      else Some s) = Some s'"
    obtain p s where sc: "sc = (p, s)"
      by (cases sc)
    show "?P bdy sc s'"
    proof (cases "p = NULL")
      case True
      then have "foreach_s_calls bdy [] (fst sc) (snd sc) = Some s'"
        using step by (simp add: sc)
      then show ?thesis ..
    next
      case False
      obtain n v1 s1 where b: "bdy (p, s) = (n, v1, s1)"
        by (cases "bdy (p, s)")
      have "loop bdy (n, s1) = Some s'"
        using step False b by (simp add: sc)
      then obtain ps where "foreach_s_calls bdy ps n s1 = Some s'"
        using IH by fastforce
      then have "foreach_s_calls bdy (p # ps) (fst sc) (snd sc) = Some s'"
        using False b by (simp add: sc)
      then show ?thesis ..
    qed
  qed
  then show ?thesis by simp
qed

lemma foreach_s_calls_unique:
  "foreach_s_calls body ps v s = Some s1 \<Longrightarrow> foreach_s_calls body qs v s = Some s2 \<Longrightarrow> ps = qs"
proof (induction ps arbitrary: v s qs)
  case Nil
  then show ?case
    by (cases qs) (simp_all split: if_splits)
next
  case (Cons p ps)
  show ?case
  proof (cases qs)
    case Nil
    with Cons.prems show ?thesis
      by (simp split: if_splits)
  next
    case (Cons q qs')
    obtain n v' s' where b: "body (p, s) = (n, v', s')"
      by (cases "body (p, s)")
    have "q = p" and "foreach_s_calls body ps n s' = Some s1"
      and "foreach_s_calls body qs' n s' = Some s2"
      using Cons.prems Cons b by (auto split: if_splits)
    then show ?thesis
      using Cons.IH Cons by blast
  qed
qed

text \<open>The reducer that does nothing, and \<^verbatim>\<open>fold_s\<close> with it.\<close>

lemma fold_s_loop_calls:
  "foreach_s_calls body ps v s = Some s' \<Longrightarrow>
     fold_s_loop (not_naming_acc body) (reducer_s_text (\<lambda>t acc p. (acc, t))) (a, v, s) =
       Some (a, s')"
proof (induction ps arbitrary: v s)
  case Nil
  then show ?case
    by (simp add: fold_s_loop_NULL split: if_splits)
next
  case (Cons p ps)
  obtain n v1 s1 where b: "body (p, s) = (n, v1, s1)"
    by (cases "body (p, s)")
  have v: "v = p" and p: "p \<noteq> NULL" and rest: "foreach_s_calls body ps n s1 = Some s'"
    using Cons.prems b by (simp_all split: if_splits)
  have "fold_s_loop (not_naming_acc body) (reducer_s_text (\<lambda>t acc p. (acc, t))) (a, v, s) =
          fold_s_loop (not_naming_acc body) (reducer_s_text (\<lambda>t acc p. (acc, t))) (a, n, s1)"
    using p b
    by (subst fold_s_loop.simps) (simp add: v not_naming_acc_def reducer_s_text_def)
  also have "\<dots> = Some (a, s')"
    using rest by (rule Cons.IH)
  finally show ?case .
qed

lemma fold_s_loop_returns_calls:
  fixes body :: "addr \<times> 's \<Rightarrow> addr \<times> addr \<times> 's" and a :: 'a
  assumes ret: "fold_s_loop (not_naming_acc body) (reducer_s_text (\<lambda>t acc p. (acc, t)))
                  (a, v, s) = Some r"
  shows "\<exists>ps. foreach_s_calls body ps v s = Some (snd r)"
proof -
  let ?N = "not_naming_acc body :: 'a \<times> addr \<times> 's \<Rightarrow> addr \<times> 'a \<times> addr \<times> 's"
  let ?B = "reducer_s_text (\<lambda>t acc p. (acc, t)) :: 'a \<times> addr \<times> 's \<Rightarrow> 'a \<times> 'a \<times> addr \<times> 's"
  let ?P = "\<lambda>(nxt :: 'a \<times> addr \<times> 's \<Rightarrow> addr \<times> 'a \<times> addr \<times> 's)
              (bdy :: 'a \<times> addr \<times> 's \<Rightarrow> 'a \<times> 'a \<times> addr \<times> 's) (sc :: 'a \<times> addr \<times> 's)
              (r :: 'a \<times> 's).
              nxt = ?N \<longrightarrow> bdy = ?B \<longrightarrow>
              (\<exists>ps. foreach_s_calls body ps (fst (snd sc)) (snd (snd sc)) = Some (snd r))"
  have "?P ?N ?B (a, v, s) r"
  proof (rule fold_s_loop.raw_induct [where P = ?P, OF _ ret])
    fix loop nxt bdy sc r
    assume IH: "\<And>nxt bdy sc r. loop nxt bdy sc = Some r \<Longrightarrow> ?P nxt bdy sc r"
      and step: "(case sc of
                    (acc, value, s) \<Rightarrow>
                      if value \<noteq> NULL
                      then (case bdy (acc, value, s) of
                              (r, acc1, value1, s1) \<Rightarrow>
                                (case nxt (r, value1, s1) of
                                   (n, acc2, value2, s2) \<Rightarrow> loop nxt bdy (acc2, n, s2)))
                      else Some (acc, s)) = Some r"
    show "?P nxt bdy sc r"
    proof (intro impI)
      assume eq: "nxt = ?N" "bdy = ?B"
      obtain acc p s where sc: "sc = (acc, p, s)"
        by (cases sc)
      show "\<exists>ps. foreach_s_calls body ps (fst (snd sc)) (snd (snd sc)) = Some (snd r)"
      proof (cases "p = NULL")
        case True
        then have "foreach_s_calls body [] (fst (snd sc)) (snd (snd sc)) = Some (snd r)"
          using step by (auto simp add: sc)
        then show ?thesis ..
      next
        case False
        obtain n v1 s1 where b: "body (p, s) = (n, v1, s1)"
          by (cases "body (p, s)")
        have "loop ?N ?B (acc, n, s1) = Some r"
          using step False b
          by (simp add: sc eq not_naming_acc_def reducer_s_text_def)
        then obtain ps where "foreach_s_calls body ps n s1 = Some (snd r)"
          using IH by fastforce
        then have "foreach_s_calls body (p # ps) (fst (snd sc)) (snd (snd sc)) = Some (snd r)"
          using False b by (simp add: sc)
        then show ?thesis ..
      qed
    qed
  qed
  then show ?thesis by simp
qed

lemma foreach_s_loop_as_fold_s_loop:
  "foreach_s_loop body (v, s) =
     map_option snd
       (fold_s_loop (not_naming_acc body) (reducer_s_text (\<lambda>t acc p. (acc, t))) (a, v, s))"
proof (cases "foreach_s_loop body (v, s)")
  case None
  have "fold_s_loop (not_naming_acc body) (reducer_s_text (\<lambda>t acc p. (acc, t))) (a, v, s) = None"
  proof (rule ccontr)
    assume "fold_s_loop (not_naming_acc body) (reducer_s_text (\<lambda>t acc p. (acc, t))) (a, v, s)
              \<noteq> None"
    then obtain r where
      "fold_s_loop (not_naming_acc body) (reducer_s_text (\<lambda>t acc p. (acc, t))) (a, v, s) = Some r"
      by auto
    then obtain ps where "foreach_s_calls body ps v s = Some (snd r)"
      by (auto dest: fold_s_loop_returns_calls)
    then have "foreach_s_loop body (v, s) = Some (snd r)"
      by (rule foreach_s_loop_calls)
    with None show False by simp
  qed
  with None show ?thesis by simp
next
  case (Some s')
  then obtain ps where "foreach_s_calls body ps v s = Some s'"
    by (auto dest: foreach_s_loop_returns_calls)
  then have "fold_s_loop (not_naming_acc body) (reducer_s_text (\<lambda>t acc p. (acc, t))) (a, v, s) =
               Some (a, s')"
    by (rule fold_s_loop_calls)
  with Some show ?thesis by simp
qed

lemma foreach_s_calls_chain:
  assumes each: "\<And>t p. I t p \<Longrightarrow> p \<noteq> NULL \<Longrightarrow>
                   fst (ea t p) = succ_of p \<and> I (snd (ea t p)) (succ_of p)"
  shows "chain succ_of v ps \<Longrightarrow> I s v \<Longrightarrow>
           foreach_s_calls (successor_text ea) ps v s = Some (foldl (\<lambda>t p. snd (ea t p)) s ps)"
proof (induction ps arbitrary: v s)
  case Nil
  then show ?case by simp
next
  case (Cons p ps)
  obtain n s1 where b: "ea s p = (n, s1)"
    by (cases "ea s p")
  have v: "v = p" and p: "p \<noteq> NULL"
    using Cons.prems(1) by simp_all
  have "I s1 (succ_of p)" and n: "n = succ_of p"
    using each [of s p] Cons.prems(2) v p b by simp_all
  have c: "chain succ_of n ps"
    using Cons.prems(1) n by simp
  have "foreach_s_calls (successor_text ea) ps n s1 = Some (foldl (\<lambda>t p. snd (ea t p)) s1 ps)"
    using c \<open>I s1 (succ_of p)\<close> unfolding n by (rule Cons.IH)
  then show ?case
    by (simp add: v p successor_text_apply b)
qed


subsection \<open>map_s\<close>


lemma aux_fault: "aux room findnext body v s = Inl e \<Longrightarrow> e = Stack_exhausted"
proof (induction room arbitrary: v s)
  case 0
  then show ?case by simp
next
  case (Suc room)
  then show ?case
    by (auto split: if_splits prod.splits sum.splits)
qed





subsection \<open>fold_s: the traversal\<close>







lemma chain_1_2_3: "chain (link list_1_2_3) 1 [1, 2, 3]"
  by (simp add: link_def list_1_2_3_def)








subsection \<open>foreach_s: the traversal\<close>

lemma foreach_s_chain:
  assumes each: "\<And>t p. I t p \<Longrightarrow> p \<noteq> NULL \<Longrightarrow>
                   fst (ea t p) = succ_of p \<and> I (snd (ea t p)) (succ_of p)"
    and ch: "chain succ_of first_e ps"
    and inv: "I s first_e"
  shows "foreach_s (constant_text first_e) (successor_text ea) junk_value s =
           Some (foldl (\<lambda>t p. snd (ea t p)) s ps)"
proof -
  have "foreach_s_calls (successor_text ea) ps first_e s = Some (foldl (\<lambda>t p. snd (ea t p)) s ps)"
    using each ch inv by (rule foreach_s_calls_chain)
  then show ?thesis
    unfolding foreach_s_constant by (rule foreach_s_loop_calls)
qed

lemma foreach_s_returns_iff_calls:
  "(foreach_s (constant_text first_e) body junk_value s = Some s') =
     (\<exists>ps. foreach_s_calls body ps first_e s = Some s')"
  unfolding foreach_s_constant
  by (blast intro: foreach_s_loop_calls dest: foreach_s_loop_returns_calls)

lemma foreach_s_as_fold_s:
  "foreach_s (constant_text first_e) body junk_value s =
     map_option snd
       (fold_s (constant_text first_e) (not_naming_acc body)
          (reducer_s_text (\<lambda>t acc p. (acc, t))) (constant_text a) junk junk_value s)"
  unfolding foreach_s_constant fold_s_constant by (rule foreach_s_loop_as_fold_s_loop)

text \<open>Releasing a chain of nodes.\<close>

lemma link_free: "link (free t p) q = (if q = p then NULL else link t q)"
  by (simp add: link_def free_def)

lemma free_node_each:
  assumes inv: "\<exists>qs. chain succ_of p qs \<and> (\<forall>q\<in>set qs. link t q = succ_of q)"
    and p: "p \<noteq> NULL"
  shows "fst (free_node t p) = succ_of p
         \<and> (\<exists>qs. chain succ_of (succ_of p) qs
                \<and> (\<forall>q\<in>set qs. link (snd (free_node t p)) q = succ_of q))"
proof -
  obtain qs where ch: "chain succ_of p qs" and links: "\<forall>q\<in>set qs. link t q = succ_of q"
    using inv by blast
  obtain qs' where qs: "qs = p # qs'"
    using ch p by (cases qs) simp_all
  have rest: "chain succ_of (succ_of p) qs'"
    using ch qs by simp
  have "distinct qs"
    using ch by (rule chain_distinct)
  then have "p \<notin> set qs'"
    using qs by simp
  then have "\<forall>q\<in>set qs'. link (snd (free_node t p)) q = succ_of q"
    using links qs by (auto simp add: free_node_def link_free)
  moreover have "fst (free_node t p) = succ_of p"
    using links qs by (simp add: free_node_def)
  ultimately show ?thesis
    using rest by blast
qed

lemma foldl_free_node: "foldl (\<lambda>t p. snd (free_node t p)) h ps = foldl free h ps"
  by (induction ps arbitrary: h) (simp_all add: free_node_def)

lemma foreach_s_free_chain:
  assumes ch: "chain (link h) head ps"
  shows "foreach_s (constant_text head) (successor_text free_node) junk_value h =
           Some (foldl free h ps)"
proof -
  have "foreach_s (constant_text head) (successor_text free_node) junk_value h =
          Some (foldl (\<lambda>t p. snd (free_node t p)) h ps)"
  proof (rule foreach_s_chain
      [where I = "\<lambda>t p. \<exists>qs. chain (link h) p qs \<and> (\<forall>q\<in>set qs. link t q = link h q)"
        and succ_of = "link h"])
    show "fst (free_node t p) = link h p
          \<and> (\<exists>qs. chain (link h) (link h p) qs
                 \<and> (\<forall>q\<in>set qs. link (snd (free_node t p)) q = link h q))"
      if "\<exists>qs. chain (link h) p qs \<and> (\<forall>q\<in>set qs. link t q = link h q)" and "p \<noteq> NULL"
      for t p
      using that by (rule free_node_each)
    show "chain (link h) head ps"
      by (rule ch)
    show "\<exists>qs. chain (link h) head qs \<and> (\<forall>q\<in>set qs. link h q = link h q)"
      using ch by blast
  qed
  then show ?thesis
    by (simp add: foldl_free_node)
qed

lemma foreach_s_free_1_2_3:
  "map_option freed (foreach_s (constant_text 1) (successor_text free_node) junk_value list_1_2_3)
     = Some [1, 2, 3]"
  using foreach_s_free_chain [OF chain_1_2_3, of junk_value]
  by (simp add: free_def list_1_2_3_def)

text \<open>
  C4. \<^verbatim>\<open>foreach_s\<close>, when the head names no variable of the macro. On a finite chain
  \<open>ps\<close> from the head (\<open>succ_of\<close> being what the callable returns, in the states of an
  invariant \<open>I\<close> of the traversal, which may depend on the element the traversal stands
  on), the callable is invoked once per element of \<open>ps\<close>, in order, starting at the head,
  and no element occurs twice. For any callable whatever: \<^verbatim>\<open>foreach_s\<close> returns exactly
  when the invocations, each on what the one before returned, end with one that returns
  the Sentinel; the elements of these invocations are determined; and the loop is
  \<^verbatim>\<open>fold_s\<close> with the callable as successor callable and a reducer that hands the
  accumulator back, without its result. The callable that releases the element it is on,
  after reading its link, releases every element of a chain once, in order: on the list
  1, 2, 3 the calls of \<^verbatim>\<open>free\<close> are on 1, 2, 3.
\<close>

theorem foreach_s_one_call_per_element:
  assumes inv: "I s first_e"
    and each: "\<And>t p. I t p \<Longrightarrow> p \<noteq> NULL \<Longrightarrow>
                 fst (ea t p) = succ_of p \<and> I (snd (ea t p)) (succ_of p)"
    and ch: "chain succ_of first_e ps"
  shows "foreach_s (constant_text first_e) (successor_text ea) junk_value s =
           Some (foldl (\<lambda>t p. snd (ea t p)) s ps)
       \<and> foreach_s_calls (successor_text ea) ps first_e s =
           Some (foldl (\<lambda>t p. snd (ea t p)) s ps)
       \<and> distinct ps
       \<and> (foreach_s (constant_text first0) body0 junk_value0 t0 = Some t1) =
           (\<exists>qs. foreach_s_calls body0 qs first0 t0 = Some t1)
       \<and> (\<forall>qs qs' t t'. foreach_s_calls body0 qs first0 t0 = Some t \<longrightarrow>
             foreach_s_calls body0 qs' first0 t0 = Some t' \<longrightarrow> qs = qs')
       \<and> foreach_s (constant_text first0) body0 junk_value0 t0 =
           map_option snd
             (fold_s (constant_text first0) (not_naming_acc body0)
                (reducer_s_text (\<lambda>t acc p. (acc, t))) (constant_text a0) junk0 junk_value0 t0)
       \<and> (\<forall>h head qs. chain (link h) head qs \<longrightarrow>
             foreach_s (constant_text head) (successor_text free_node) junk_value1 h =
               Some (foldl free h qs))
       \<and> map_option freed
           (foreach_s (constant_text 1) (successor_text free_node) junk_value1 list_1_2_3) =
           Some [1, 2, 3]"
proof (intro conjI)
  show "foreach_s (constant_text first_e) (successor_text ea) junk_value s =
          Some (foldl (\<lambda>t p. snd (ea t p)) s ps)"
    using each ch inv by (rule foreach_s_chain)
  show "foreach_s_calls (successor_text ea) ps first_e s =
          Some (foldl (\<lambda>t p. snd (ea t p)) s ps)"
    using each ch inv by (rule foreach_s_calls_chain)
  show "distinct ps"
    using ch by (rule chain_distinct)
  show "(foreach_s (constant_text first0) body0 junk_value0 t0 = Some t1) =
          (\<exists>qs. foreach_s_calls body0 qs first0 t0 = Some t1)"
    by (rule foreach_s_returns_iff_calls)
  show "\<forall>qs qs' t t'. foreach_s_calls body0 qs first0 t0 = Some t \<longrightarrow>
          foreach_s_calls body0 qs' first0 t0 = Some t' \<longrightarrow> qs = qs'"
    by (blast dest: foreach_s_calls_unique)
  show "foreach_s (constant_text first0) body0 junk_value0 t0 =
          map_option snd
            (fold_s (constant_text first0) (not_naming_acc body0)
               (reducer_s_text (\<lambda>t acc p. (acc, t))) (constant_text a0) junk0 junk_value0 t0)"
    by (rule foreach_s_as_fold_s)
  show "\<forall>h head qs. chain (link h) head qs \<longrightarrow>
          foreach_s (constant_text head) (successor_text free_node) junk_value1 h =
            Some (foldl free h qs)"
    by (blast intro: foreach_s_free_chain)
  show "map_option freed
          (foreach_s (constant_text 1) (successor_text free_node) junk_value1 list_1_2_3) =
          Some [1, 2, 3]"
    by (rule foreach_s_free_1_2_3)
qed

theorem foreach_s_one_call_per_element_witness:
  "chain (link list_1_2_3) 1 [1, 2, 3]
   \<and> foreach_s (constant_text 1) (successor_text free_node) NULL list_1_2_3 =
       Some (foldl (\<lambda>t p. snd (free_node t p)) list_1_2_3 [1, 2, 3])
   \<and> freed (foldl (\<lambda>t p. snd (free_node t p)) list_1_2_3 [1, 2, 3]) = [1, 2, 3]"
proof -
  let ?I = "\<lambda>t p. \<exists>qs. chain (link list_1_2_3) p qs
                     \<and> (\<forall>q\<in>set qs. link t q = link list_1_2_3 q)"
  have each: "fst (free_node t p) = link list_1_2_3 p \<and> ?I (snd (free_node t p)) (link list_1_2_3 p)"
    if "?I t p" and "p \<noteq> NULL" for t p
    using that by (rule free_node_each)
  have inv: "?I list_1_2_3 1"
    using chain_1_2_3 by blast
  have "foreach_s (constant_text 1) (successor_text free_node) NULL list_1_2_3 =
          Some (foldl (\<lambda>t p. snd (free_node t p)) list_1_2_3 [1, 2, 3])"
    by (rule foreach_s_one_call_per_element
        [where I = ?I and succ_of = "link list_1_2_3" and ea = free_node,
          OF inv each chain_1_2_3, THEN conjunct1])
  moreover have "freed (foldl (\<lambda>t p. snd (free_node t p)) list_1_2_3 [1, 2, 3]) = [1, 2, 3]"
    by (simp add: free_node_def free_def list_1_2_3_def)
  ultimately show ?thesis
    using chain_1_2_3 by simp
qed

text \<open>
  A head that is a variable of the caller named \<^verbatim>\<open>value\<close> reads the macro's own
  \<^verbatim>\<open>value\<close> before it is initialised, not the head of the list 1, 2, 3: with the Sentinel
  there the callable is never invoked, with the address 3 there it is invoked on the last
  element only.
\<close>

theorem foreach_s_self_initialised_counterexample:
  "chain (link list_1_2_3) 1 [1, 2, 3]
   \<and> map_option freed
       (foreach_s (constant_text 1) (successor_text free_node) NULL list_1_2_3) = Some [1, 2, 3]
   \<and> map_option freed
       (foreach_s self_text (successor_text free_node) NULL list_1_2_3) = Some []
   \<and> map_option freed
       (foreach_s self_text (successor_text free_node) 3 list_1_2_3) = Some [3]"
  by (simp add: foreach_s_def foreach_s_loop_elem foreach_s_loop_NULL constant_text_def
      self_text_def successor_text_def free_node_def free_def link_def list_1_2_3_def)

subsection \<open>map_s: results\<close>




















subsection \<open>map_s: the frame\<close>






subsection \<open>Returning\<close>












end
